theory Spec2Isabelle
  imports Main "HOL-Library.Char_ord" "HOL-Library.List_Lexorder"
begin

section \<open>JavaScript objects used as dictionaries\<close>

text \<open>
  The three maps of the classes (\<open>increments\<close>, \<open>decrements\<close>, \<open>entries\<close>) are plain
  objects made by \<open>{ ...x }\<close>: they have own properties, and behind them the members of
  \<open>Object.prototype\<close>.

  The own properties are an association list in insertion order; when a key is repeated
  the first pair is the property. \<open>own_get\<close> looks an own property up, \<open>own_set\<close>
  creates or overwrites one (an existing key keeps its place, a new key goes to the end)
  and \<open>obj_keys\<close> is the key sequence that \<open>for (const k in o)\<close> and
  \<open>Object.keys(o)\<close> walk through, each key once. JavaScript walks through keys that
  look like array indices first; the loops below treat every key on its own, so what
  they compute does not depend on where a key stands in the walk.
\<close>

type_synonym 'v obj = "(string \<times> 'v) list"

definition own_get :: "'v obj \<Rightarrow> string \<Rightarrow> 'v option" where
  "own_get ob k = map_of ob k"

fun own_set :: "string \<Rightarrow> 'v \<Rightarrow> 'v obj \<Rightarrow> 'v obj" where
  "own_set k v [] = [(k, v)]"
| "own_set k v (p # ps) = (if fst p = k then (k, v) # ps else p # own_set k v ps)"

fun obj_keys :: "'v obj \<Rightarrow> string list" where
  "obj_keys [] = []"
| "obj_keys (p # ps) = fst p # filter (\<lambda>k. k \<noteq> fst p) (obj_keys ps)"

text \<open>
  The names that every plain object inherits from \<open>Object.prototype\<close>. Eleven of them
  are functions; \<open>__proto__\<close> is an accessor whose getter returns \<open>Object.prototype\<close>
  itself and whose setter ignores a value that is not an object. None of them is
  enumerable, so no loop over the keys of an object visits them.

  Every call is modelled from the standard environment, in which these built-in objects
  are as the language defines them: none of them has a property \<open>deleted\<close> or
  \<open>char\<close>. A call that writes to one of them reports the write.
\<close>

definition inherited_names :: "string list" where
  "inherited_names =
     [''constructor'', ''__defineGetter__'', ''__defineSetter__'', ''hasOwnProperty'',
      ''__lookupGetter__'', ''__lookupSetter__'', ''isPrototypeOf'',
      ''propertyIsEnumerable'', ''toString'', ''valueOf'', ''__proto__'',
      ''toLocaleString'']"

section \<open>PNCounter\<close>

text \<open>
  A number is modelled as an unbounded integer or \<open>NaN\<close>. The values that the expressions of the
  class can have are a number, \<open>undefined\<close>, a built-in object read through the
  prototype chain (named by the key that reached it), and \<open>Text\<close>: a string that
  contains the string form of a built-in object (the source text of a built-in function,
  or \<open>[object Object]\<close>). Such a string is not empty and is not a numeric literal,
  whatever is put in front of it or after it.
\<close>

datatype number = Finite int | NaN

datatype jsval = Number number | Text | Builtin string | Undefined

record pncounter =
  pn_localNodeId :: string
  increments :: "jsval obj"
  decrements :: "jsval obj"

text \<open>The property read \<open>o[k]\<close>: an own property first, then the prototype chain.\<close>

definition tally_read :: "jsval obj \<Rightarrow> string \<Rightarrow> jsval" where
  "tally_read ob k =
     (case own_get ob k of
        Some v \<Rightarrow> v
      | None \<Rightarrow> if k \<in> set inherited_names then Builtin k else Undefined)"

text \<open>
  The assignment \<open>o[k] = v\<close> of a number or a string. It overwrites an own property.
  Without one, the key \<open>__proto__\<close> reaches the inherited setter, which ignores a value
  that is not an object, and every other key becomes a new own property (the inherited
  functions are writable data properties, which an assignment shadows).
\<close>

definition tally_assign :: "string \<Rightarrow> jsval \<Rightarrow> jsval obj \<Rightarrow> jsval obj" where
  "tally_assign k v ob =
     (if own_get ob k = None \<and> k = ''__proto__'' then ob else own_set k v ob)"

definition truthy :: "jsval \<Rightarrow> bool" where
  "truthy v =
     (case v of
        Number (Finite n) \<Rightarrow> n \<noteq> 0
      | Number NaN \<Rightarrow> False
      | Text \<Rightarrow> True
      | Builtin b \<Rightarrow> True
      | Undefined \<Rightarrow> False)"

text \<open>The idiom \<open>x || 0\<close>.\<close>

definition or0 :: "jsval \<Rightarrow> jsval" where
  "or0 v = (if truthy v then v else Number (Finite 0))"

text \<open>
  \<open>ToNumber\<close>: a built-in object is first turned into its string form, and neither that
  string nor \<open>Text\<close> is a numeric literal.
\<close>

definition to_number :: "jsval \<Rightarrow> number" where
  "to_number v = (case v of Number n \<Rightarrow> n | _ \<Rightarrow> NaN)"

text \<open>
  The operator \<open>+\<close>: when an operand is a string or an object (which is turned into
  its string form) the result is the concatenation of the two string forms; otherwise
  the two numbers are added.
\<close>

definition stringy :: "jsval \<Rightarrow> bool" where
  "stringy v = (case v of Text \<Rightarrow> True | Builtin b \<Rightarrow> True | _ \<Rightarrow> False)"

definition js_plus :: "jsval \<Rightarrow> jsval \<Rightarrow> jsval" where
  "js_plus a b =
     (if stringy a \<or> stringy b then Text
      else (case (to_number a, to_number b) of
              (Finite x, Finite y) \<Rightarrow> Number (Finite (x + y))
            | _ \<Rightarrow> Number NaN))"

definition math_max :: "jsval \<Rightarrow> jsval \<Rightarrow> number" where
  "math_max a b =
     (case (to_number a, to_number b) of
        (Finite x, Finite y) \<Rightarrow> Finite (max x y)
      | _ \<Rightarrow> NaN)"



definition pn_new :: "string \<Rightarrow> pncounter" where
  "pn_new nid = \<lparr>pn_localNodeId = nid, increments = [], decrements = []\<rparr>"


definition decrement :: "pncounter \<Rightarrow> pncounter" where
  "decrement c =
     (let v = or0 (tally_read (decrements c) (pn_localNodeId c))
      in c\<lparr>decrements :=
             tally_assign (pn_localNodeId c) (js_plus v (Number (Finite 1))) (decrements c)\<rparr>)"

text \<open>
  One pass of \<open>for (const nodeId in theirs) mine[nodeId] = Math.max(mine[nodeId] || 0,
  theirs[nodeId] || 0)\<close>: the keys of \<open>theirs\<close> are visited in turn, \<open>mine\<close> is updated.
\<close>

fun max_loop :: "jsval obj \<Rightarrow> string list \<Rightarrow> jsval obj \<Rightarrow> jsval obj" where
  "max_loop theirs [] mine = mine"
| "max_loop theirs (nodeId # rest) mine =
     (let local = or0 (tally_read mine nodeId);
          remote = or0 (tally_read theirs nodeId)
      in max_loop theirs rest (tally_assign nodeId (Number (math_max local remote)) mine))"

definition pn_merge :: "pncounter \<Rightarrow> pncounter \<Rightarrow> pncounter" where
  "pn_merge c other =
     c\<lparr>increments := max_loop (increments other) (obj_keys (increments other)) (increments c),
       decrements := max_loop (decrements other) (obj_keys (decrements other)) (decrements c)\<rparr>"



text \<open>
  Counters used as concrete inputs. \<open>counter_negative\<close> was constructed with a negative
  tally. \<open>counter_constructor\<close> is a replica whose node id is \<open>constructor\<close>, after
  one increment. \<open>peer_proto\<close> holds tallies under two inherited names as own properties,
  as an object parsed from JSON does.
\<close>

definition counter_negative :: pncounter where
  "counter_negative =
     \<lparr>pn_localNodeId = ''a'', increments = [(''a'', Number (Finite (- 1)))], decrements = []\<rparr>"



definition peer_proto :: pncounter where
  "peer_proto =
     \<lparr>pn_localNodeId = ''p'',
      increments = [(''__proto__'', Number (Finite 3)), (''constructor'', Number (Finite 2))],
      decrements = []\<rparr>"

section \<open>TextRGA\<close>

text \<open>
  An entry is \<open>{char, deleted}\<close>. The state of a replica is the four data fields of the
  class; the two callback fields are modelled by whether a callback is registered, and a
  call of a callback is recorded as a value in the list of calls that a method returns.
  \<open>localCounter\<close> and the index arguments are JavaScript numbers, modelled as
  unbounded integers. A method changes the receiver only and reads its argument, so a
  replica is a value and a structural copy of a replica is the same value.
\<close>

record entry =
  char :: string
  deleted :: bool

record textrga =
  localNodeId :: string
  localCounter :: int
  entries :: "entry obj"
  order :: "string list"
  onInsert :: bool
  onDelete :: bool

datatype callback = OnInsert int string string | OnDelete int string

datatype error = TypeError

text \<open>
  A write \<open>member.deleted = b\<close> to a built-in object, named by the inherited key that
  reached it (\<open>__proto__\<close> names \<open>Object.prototype\<close> itself).
\<close>

datatype builtin_write = SetDeleted string bool

text \<open>The values a caller can pass for the parameter \<open>char\<close> of \<open>insertAt\<close>.\<close>

datatype js_value = JSString string | JSNumber int | JSBoolean bool | JSUndefined | JSNull

text \<open>
  What the property read \<open>this.entries[id]\<close> finds: an own entry, a built-in object
  through the prototype chain, or \<open>undefined\<close>.
\<close>

datatype entry_read = Own entry | Inherited string | Missing

definition read_entry :: "entry obj \<Rightarrow> string \<Rightarrow> entry_read" where
  "read_entry es k =
     (case own_get es k of
        Some e \<Rightarrow> Own e
      | None \<Rightarrow> if k \<in> set inherited_names then Inherited k else Missing)"

definition textrga_new :: "string \<Rightarrow> textrga" where
  "textrga_new nid =
     \<lparr>localNodeId = nid, localCounter = 0, entries = [], order = [],
      onInsert = False, onDelete = False\<rparr>"

text \<open>Decimal rendering of an integral number inside a template literal.\<close>

definition digit :: "nat \<Rightarrow> char" where
  "digit d = char_of (48 + d)"

fun digits :: "nat \<Rightarrow> string" where
  "digits n = (if n < 10 then [digit n] else digits (n div 10) @ [digit (n mod 10)])"

definition number_toString :: "int \<Rightarrow> string" where
  "number_toString i = (if i < 0 then CHR ''-'' # digits (nat (- i)) else digits (nat i))"

text \<open>\<open>#nextId\<close>: bump the counter, return the id together with the updated state.\<close>

definition nextId :: "textrga \<Rightarrow> string \<times> textrga" where
  "nextId s =
     (let s' = s\<lparr>localCounter := localCounter s + 1\<rparr>
      in (localNodeId s' @ '':'' @ number_toString (localCounter s'), s'))"

text \<open>
  The filter predicate \<open>!this.entries[entryId]?.deleted\<close>. A built-in object has no
  property \<open>deleted\<close>, so an id that reaches one counts as visible, like an id that
  reads \<open>undefined\<close>.
\<close>

definition visible :: "entry obj \<Rightarrow> string \<Rightarrow> bool" where
  "visible es entryId =
     (case read_entry es entryId of
        Own e \<Rightarrow> \<not> deleted e
      | Inherited m \<Rightarrow> True
      | Missing \<Rightarrow> True)"

definition clampIndex :: "int \<Rightarrow> nat \<Rightarrow> int" where
  "clampIndex index len = max 0 (min index (int len))"

text \<open>
  The loop of \<open>insertAt\<close> over \<open>this.order\<close>, with its two variables \<open>newOrder\<close> and
  \<open>visiblePos\<close>.
\<close>

fun insert_loop ::
  "entry obj \<Rightarrow> string \<Rightarrow> int \<Rightarrow> string list \<Rightarrow> string list \<Rightarrow> int \<Rightarrow> string list" where
  "insert_loop es newId clampedIndex [] newOrder visiblePos = newOrder"
| "insert_loop es newId clampedIndex (entryId # rest) newOrder visiblePos =
     (if visible es entryId
      then insert_loop es newId clampedIndex rest
             ((if visiblePos = clampedIndex then newOrder @ [newId] else newOrder) @ [entryId])
             (visiblePos + 1)
      else insert_loop es newId clampedIndex rest (newOrder @ [entryId]) visiblePos)"

text \<open>
  A method returns what it returned or threw, the state it left behind, the callbacks
  it called, in the order of the calls, and the writes it made to built-in objects.
\<close>

type_synonym 'a outcome = "(error + 'a) \<times> textrga \<times> callback list \<times> builtin_write list"

text \<open>
  The id that \<open>insertAt\<close> stores under contains a colon, so it is none of the inherited
  names and the assignment \<open>this.entries[id] = ...\<close> makes or overwrites an own property.
\<close>

definition insertAt :: "int \<Rightarrow> js_value \<Rightarrow> textrga \<Rightarrow> string outcome" where
  "insertAt index c s =
     (case c of
        JSString ch \<Rightarrow>
          if length ch \<noteq> 1 then (Inl TypeError, s, [], [])
          else
            (let (newId, s1) = nextId s;
                 visibleIds = filter (visible (entries s1)) (order s1);
                 clampedIndex = clampIndex index (length visibleIds);
                 newOrder = insert_loop (entries s1) newId clampedIndex (order s1) [] 0;
                 newOrder' =
                   (if clampedIndex = int (length visibleIds) \<and> newId \<notin> set newOrder
                    then newOrder @ [newId] else newOrder);
                 s2 = s1\<lparr>order := newOrder',
                         entries := own_set newId \<lparr>char = ch, deleted = False\<rparr> (entries s1)\<rparr>
             in (Inr newId, s2, if onInsert s2 then [OnInsert clampedIndex newId ch] else [], []))
      | _ \<Rightarrow> (Inl TypeError, s, [], []))"

text \<open>
  \<open>deleteAt\<close> returns early when \<open>this.entries[id]\<close> is \<open>undefined\<close>. When the id has
  no own entry and names an inherited member, the read finds the built-in object, the
  early return is not taken, \<open>deleted\<close> is set on the built-in object and the callback
  is called.
\<close>

definition deleteAt :: "int \<Rightarrow> textrga \<Rightarrow> unit outcome" where
  "deleteAt index s =
     (let visibleIds = filter (visible (entries s)) (order s)
      in if index < 0 \<or> index \<ge> int (length visibleIds) then (Inr (), s, [], [])
         else
           (let entryId = visibleIds ! nat index
            in case read_entry (entries s) entryId of
                 Missing \<Rightarrow> (Inr (), s, [], [])
               | Own e \<Rightarrow>
                   (Inr (),
                    s\<lparr>entries := own_set entryId (e\<lparr>deleted := True\<rparr>) (entries s)\<rparr>,
                    if onDelete s then [OnDelete index entryId] else [],
                    [])
               | Inherited m \<Rightarrow>
                   (Inr (),
                    s,
                    if onDelete s then [OnDelete index entryId] else [],
                    [SetDeleted m True])))"

text \<open>
  The own property \<open>deleted\<close> that the writes made so far in a call have given to a
  built-in object, if any (the last write counts), and the truth value of
  \<open>member.deleted\<close>: the own property if there is one, else what the member inherits
  from \<open>Object.prototype\<close>, else \<open>undefined\<close>.
\<close>

fun own_deleted :: "builtin_write list \<Rightarrow> string \<Rightarrow> bool option" where
  "own_deleted [] m = None"
| "own_deleted (SetDeleted n b # ws) m =
     (case own_deleted ws m of
        Some later \<Rightarrow> Some later
      | None \<Rightarrow> if n = m then Some b else None)"

definition member_deleted :: "builtin_write list \<Rightarrow> string \<Rightarrow> bool" where
  "member_deleted ws m =
     (case own_deleted ws m of
        Some b \<Rightarrow> b
      | None \<Rightarrow> (case own_deleted ws ''__proto__'' of Some p \<Rightarrow> p | None \<Rightarrow> False))"

text \<open>
  The first loop of \<open>merge\<close>, over the keys that \<open>other.entries\<close> has when the loop
  starts, with the receiver's entries and the writes made to built-in objects so far.
  A key of an object always reads back a value, so the branch for \<open>remote\<close> undefined
  is never taken.

  \<open>local\<close> is read through the prototype chain. When it is a built-in object, the
  branch \<open>local.deleted = local.deleted || !!remote.deleted\<close> writes to that object and
  nothing is copied. When an earlier round of the same loop has set \<open>deleted\<close> on
  \<open>Object.prototype\<close>, the id \<open>deleted\<close> reads that boolean: \<open>false\<close> takes the
  copying branch, and \<open>true\<close> takes the other branch, where the assignment to a property
  of a boolean throws a \<open>TypeError\<close> (class bodies are strict code).
\<close>

fun merge_entries ::
  "entry obj \<Rightarrow> string list \<Rightarrow> entry obj \<Rightarrow> builtin_write list
     \<Rightarrow> (error + unit) \<times> entry obj \<times> builtin_write list" where
  "merge_entries theirs [] mine ws = (Inr (), mine, ws)"
| "merge_entries theirs (k # rest) mine ws =
     (case own_get theirs k of
        None \<Rightarrow> merge_entries theirs rest mine ws
      | Some remote \<Rightarrow>
          (case read_entry mine k of
             Missing \<Rightarrow>
               if k = ''deleted'' \<and> own_deleted ws ''__proto__'' = Some True
               then (Inl TypeError, mine, ws)
               else merge_entries theirs rest
                      (own_set k \<lparr>char = char remote, deleted = deleted remote\<rparr> mine) ws
           | Own local \<Rightarrow>
               merge_entries theirs rest
                 (own_set k (local\<lparr>deleted := deleted local \<or> deleted remote\<rparr>) mine) ws
           | Inherited m \<Rightarrow>
               merge_entries theirs rest mine
                 (ws @ [SetDeleted m (member_deleted ws m \<or> deleted remote)])))"

text \<open>\<open>new Set(array)\<close>: the elements in the order of their first occurrence.\<close>

fun set_add_all :: "string list \<Rightarrow> string list \<Rightarrow> string list" where
  "set_add_all [] members = members"
| "set_add_all (x # xs) members =
     set_add_all xs (if x \<in> set members then members else members @ [x])"

definition new_Set :: "string list \<Rightarrow> string list" where
  "new_Set xs = set_add_all xs []"

text \<open>
  \<open>Array.prototype.sort\<close> without a comparator orders strings by their code units,
  a proper prefix first: the lexicographic order of \<open>string\<close>.

  \<open>merge_call\<close> is the call of \<open>merge\<close> with everything it does; when the first loop
  throws, the entries merged so far stay and \<open>order\<close> and \<open>localCounter\<close> are not
  touched. \<open>merge\<close> is the receiver after the call.
\<close>

definition merge_call :: "textrga \<Rightarrow> textrga \<Rightarrow> unit outcome" where
  "merge_call s other =
     (case merge_entries (entries other) (obj_keys (entries other)) (entries s) [] of
        (Inl e, es, ws) \<Rightarrow> (Inl e, s\<lparr>entries := es\<rparr>, [], ws)
      | (Inr u, es, ws) \<Rightarrow>
          (let idSet = new_Set (order s @ order other @ obj_keys es)
           in (Inr (),
               s\<lparr>entries := es,
                 order := sort idSet,
                 localCounter := max (localCounter s) (localCounter other)\<rparr>,
               [],
               ws)))"

text \<open>
  The loop of \<open>getText\<close>. A built-in object is truthy and has neither \<open>deleted\<close> nor
  \<open>char\<close>, so an id that reaches one appends the string form of \<open>undefined\<close>.
\<close>

fun text_loop :: "entry obj \<Rightarrow> string list \<Rightarrow> string \<Rightarrow> string" where
  "text_loop es [] result = result"
| "text_loop es (k # rest) result =
     (case read_entry es k of
        Missing \<Rightarrow> text_loop es rest result
      | Own e \<Rightarrow> text_loop es rest (if \<not> deleted e then result @ char e else result)
      | Inherited m \<Rightarrow> text_loop es rest (result @ ''undefined''))"

definition getText :: "textrga \<Rightarrow> string" where
  "getText s = text_loop (entries s) (order s) []"

text \<open>The parts of what a method call returns.\<close>

definition state_after :: "'a outcome \<Rightarrow> textrga" where
  "state_after r = fst (snd r)"

definition calls_of :: "'a outcome \<Rightarrow> callback list" where
  "calls_of r = fst (snd (snd r))"

definition writes_of :: "'a outcome \<Rightarrow> builtin_write list" where
  "writes_of r = snd (snd (snd r))"

definition merge :: "textrga \<Rightarrow> textrga \<Rightarrow> textrga" where
  "merge s other = state_after (merge_call s other)"

text \<open>
  What the first loop of \<open>merge\<close> leaves under one id, from what the receiver and the
  argument hold under it, and what it leaves of the \<open>deleted\<close> flags alone.
\<close>

definition join_entry :: "entry option \<Rightarrow> entry option \<Rightarrow> entry option" where
  "join_entry mine theirs =
     (case theirs of
        None \<Rightarrow> mine
      | Some remote \<Rightarrow>
          (case mine of
             None \<Rightarrow> Some \<lparr>char = char remote, deleted = deleted remote\<rparr>
           | Some local \<Rightarrow> Some (local\<lparr>deleted := deleted local \<or> deleted remote\<rparr>)))"

definition join_flag :: "bool option \<Rightarrow> bool option \<Rightarrow> bool option" where
  "join_flag mine theirs =
     (case theirs of
        None \<Rightarrow> mine
      | Some r \<Rightarrow> (case mine of None \<Rightarrow> Some r | Some l \<Rightarrow> Some (l \<or> r)))"

text \<open>
  Two replicas agree on an id when the entries they hold under it carry the same
  character. They hold the same data when their \<open>entries\<close> are the same map and their
  \<open>order\<close> arrays are equal, and the same ids and flags when their \<open>order\<close> arrays are
  equal and their \<open>entries\<close> have the same ids with the same \<open>deleted\<close> flags.
  The inherited ids of a replica are the ids of its \<open>entries\<close> that are inherited
  names.
\<close>

definition same_chars :: "textrga \<Rightarrow> textrga \<Rightarrow> bool" where
  "same_chars x y \<longleftrightarrow>
     (\<forall>k a b. own_get (entries x) k = Some a \<and> own_get (entries y) k = Some b \<longrightarrow> char a = char b)"

definition same_data :: "textrga \<Rightarrow> textrga \<Rightarrow> bool" where
  "same_data x y \<longleftrightarrow> own_get (entries x) = own_get (entries y) \<and> order x = order y"

definition same_ids_and_flags :: "textrga \<Rightarrow> textrga \<Rightarrow> bool" where
  "same_ids_and_flags x y \<longleftrightarrow>
     (\<lambda>k. map_option deleted (own_get (entries x) k))
       = (\<lambda>k. map_option deleted (own_get (entries y) k))
     \<and> order x = order y"

definition inherited_ids :: "textrga \<Rightarrow> string list" where
  "inherited_ids s = filter (\<lambda>k. k \<in> set inherited_names) (obj_keys (entries s))"

text \<open>
  The six orders in which three replicas can be merged, the two groupings of each, and
  whether a call of \<open>merge\<close> returned without writing to a built-in object.
\<close>

definition orderings :: "textrga \<Rightarrow> textrga \<Rightarrow> textrga \<Rightarrow> (textrga \<times> textrga \<times> textrga) list" where
  "orderings x y z = [(x, y, z), (x, z, y), (y, x, z), (y, z, x), (z, x, y), (z, y, x)]"

definition arrangements :: "textrga \<Rightarrow> textrga \<Rightarrow> textrga \<Rightarrow> textrga list" where
  "arrangements x y z =
     concat (map (\<lambda>(p, q, r). [merge (merge p q) r, merge p (merge q r)]) (orderings x y z))"

definition clean :: "unit outcome \<Rightarrow> bool" where
  "clean r \<longleftrightarrow> fst r = Inr () \<and> writes_of r = []"

text \<open>
  Replicas used as concrete inputs. \<open>replica_iH\<close> typed \<open>H\<close> and then \<open>i\<close> in front of
  it. \<open>replica_x\<close> and \<open>replica_y\<close> are two replicas that run under the same node id.
  \<open>replica_stale\<close> is a snapshot rehydrated without its \<open>localCounter\<close>, which
  \<open>fromJSON\<close> reads as 0. \<open>peer_dangling\<close> lists an id in \<open>order\<close> that has no entry,
  and \<open>replica_dangling\<close> has merged it. \<open>peer_inherited\<close> lists the id
  \<open>constructor\<close> in \<open>order\<close> without an entry, and \<open>replica_inherited\<close> has merged
  it. \<open>peer_constructor\<close> holds an entry under the id \<open>constructor\<close>;
  \<open>peer_constructor_deleted\<close> has deleted that character and \<open>peer_constructor_i\<close>
  has typed \<open>i\<close> after it.
\<close>

definition replica_iH :: textrga where
  "replica_iH =
     state_after (insertAt 0 (JSString ''i'')
       (state_after (insertAt 0 (JSString ''H'') (textrga_new ''A''))))"

definition replica_x :: textrga where
  "replica_x = state_after (insertAt 0 (JSString ''x'') (textrga_new ''a''))"

definition replica_y :: textrga where
  "replica_y = state_after (insertAt 0 (JSString ''y'') (textrga_new ''a''))"

definition replica_x_deleted :: textrga where
  "replica_x_deleted = state_after (deleteAt 0 replica_x)"

definition replica_stale :: textrga where
  "replica_stale =
     \<lparr>localNodeId = ''a'', localCounter = 0,
      entries = [(''a:1'', \<lparr>char = ''H'', deleted = False\<rparr>),
                 (''b:1'', \<lparr>char = ''i'', deleted = False\<rparr>)],
      order = [''a:1'', ''b:1''], onInsert = True, onDelete = True\<rparr>"

definition peer_dangling :: textrga where
  "peer_dangling =
     \<lparr>localNodeId = ''b'', localCounter = 0, entries = [],
      order = [''b:7''], onInsert = False, onDelete = False\<rparr>"

definition replica_dangling :: textrga where
  "replica_dangling =
     merge (state_after (insertAt 0 (JSString ''H'') ((textrga_new ''a'')\<lparr>onDelete := True\<rparr>)))
           peer_dangling"

definition peer_inherited :: textrga where
  "peer_inherited =
     \<lparr>localNodeId = ''b'', localCounter = 0, entries = [],
      order = [''constructor''], onInsert = False, onDelete = False\<rparr>"

definition replica_inherited :: textrga where
  "replica_inherited =
     merge (state_after (insertAt 0 (JSString ''H'') ((textrga_new ''a'')\<lparr>onDelete := True\<rparr>)))
           peer_inherited"

definition peer_constructor :: textrga where
  "peer_constructor =
     \<lparr>localNodeId = ''b'', localCounter = 0,
      entries = [(''constructor'', \<lparr>char = ''c'', deleted = False\<rparr>)],
      order = [''constructor''], onInsert = False, onDelete = False\<rparr>"

definition peer_constructor_deleted :: textrga where
  "peer_constructor_deleted = state_after (deleteAt 0 peer_constructor)"

definition peer_constructor_i :: textrga where
  "peer_constructor_i = state_after (insertAt 1 (JSString ''i'') peer_constructor)"

section \<open>LWW register\<close>

text \<open>
  The sources declare the class \<open>LWW\<close> (its four fields, its two static thresholds and
  the signature of \<open>competition\<close>) and leave out the bodies. The two thresholds are
  static fields read when two registers are compared, so they are a parameter of the
  comparison; their documented defaults are 30 minutes and 30 seconds.
\<close>

record 'a lww =
  lww_value :: 'a
  timestamp :: int
  counter :: int
  nodeId :: string

record lww_config =
  STALE_THRESHOLD_MS :: int
  COUNTER_WINDOW_MS :: int

definition default_config :: lww_config where
  "default_config = \<lparr>STALE_THRESHOLD_MS = 30 * 60 * 1000, COUNTER_WINDOW_MS = 30 * 1000\<rparr>"

text \<open>
  Modelled from the spec: the body of \<open>LWW.competition\<close> is missing from the sources,
  and this is the comparison it makes according to section 4.1 of the specification,
  whose three rules apply in turn until one decides. A timestamp gap larger than the
  staleness threshold decides for the later timestamp. Otherwise, when the gap is within
  the counter window, the higher counter decides. When neither has decided, the
  lexicographically greater node id decides.
\<close>

definition contender_wins :: "lww_config \<Rightarrow> 'a lww \<Rightarrow> 'a lww \<Rightarrow> bool" where
  "contender_wins cfg self contender =
     (let gap = \<bar>timestamp contender - timestamp self\<bar>
      in if gap > STALE_THRESHOLD_MS cfg then timestamp contender > timestamp self
         else if gap \<le> COUNTER_WINDOW_MS cfg \<and> counter contender \<noteq> counter self
              then counter contender > counter self
         else nodeId contender > nodeId self)"

text \<open>
  Modelled from the spec: the body of \<open>LWW.competition\<close> is missing from the sources.
  According to section 4.1, when the contender wins its four fields overwrite the
  receiver's, and otherwise the receiver is left unchanged; the receiver is returned.
\<close>

definition competition :: "lww_config \<Rightarrow> 'a lww \<Rightarrow> 'a lww \<Rightarrow> 'a lww" where
  "competition cfg self contender =
     (if contender_wins cfg self contender
      then self\<lparr>lww_value := lww_value contender, timestamp := timestamp contender,
                counter := counter contender, nodeId := nodeId contender\<rparr>
      else self)"

section \<open>Facts about objects\<close>

lemma own_get_set: "own_get (own_set k v ob) j = (if j = k then Some v else own_get ob j)"
  by (induction ob) (auto simp: own_get_def)

lemma obj_keys_image: "set (obj_keys ob) = fst ` set ob"
  by (induction ob) auto

lemma obj_keys_distinct: "distinct (obj_keys ob)"
  by (induction ob) auto

lemma own_get_None_iff: "own_get ob k = None \<longleftrightarrow> k \<notin> set (obj_keys ob)"
  by (simp add: own_get_def obj_keys_image map_of_eq_None_iff)

lemma obj_keys_dom: "set (obj_keys ob) = {k. own_get ob k \<noteq> None}"
  using own_get_None_iff[of ob] by auto

lemma obj_keys_set_same: "own_get ob k \<noteq> None \<Longrightarrow> obj_keys (own_set k v ob) = obj_keys ob"
  by (induction ob) (auto simp: own_get_def)

section \<open>Facts about the loops of PNCounter\<close>

lemma own_get_tally_assign:
  "own_get (tally_assign a v ob) j =
     (if j = a \<and> \<not> (own_get ob a = None \<and> a = ''__proto__'') then Some v else own_get ob j)"
  by (auto simp: tally_assign_def own_get_set)

lemma tally_read_tally_assign:
  "j \<noteq> a \<Longrightarrow> tally_read (tally_assign a v ob) j = tally_read ob j"
  by (simp add: tally_read_def own_get_tally_assign)

lemma max_loop_own:
  "distinct ks \<Longrightarrow>
   own_get (max_loop theirs ks mine) k =
     (if k \<in> set ks
      then (if own_get mine k = None \<and> k = ''__proto__'' then None
            else Some (Number (math_max (or0 (tally_read mine k)) (or0 (tally_read theirs k)))))
      else own_get mine k)"
proof (induction ks arbitrary: mine)
  case Nil
  then show ?case by simp
next
  case (Cons a ks)
  let ?v = "Number (math_max (or0 (tally_read mine a)) (or0 (tally_read theirs a)))"
  let ?mine = "tally_assign a ?v mine"
  from Cons.prems have a: "a \<notin> set ks" and d: "distinct ks" by simp_all
  have step: "max_loop theirs (a # ks) mine = max_loop theirs ks ?mine"
    by (simp add: Let_def)
  show ?case
  proof (cases "k = a")
    case True
    then have "own_get (max_loop theirs ks ?mine) k = own_get ?mine a"
      using Cons.IH[OF d, of ?mine] a by simp
    then show ?thesis
      unfolding step using True by (auto simp: own_get_tally_assign)
  next
    case False
    then have e: "own_get ?mine k = own_get mine k" "tally_read ?mine k = tally_read mine k"
      by (simp_all add: own_get_tally_assign tally_read_tally_assign)
    have "own_get (max_loop theirs ks ?mine) k =
       (if k \<in> set ks
        then (if own_get mine k = None \<and> k = ''__proto__'' then None
              else Some (Number (math_max (or0 (tally_read mine k)) (or0 (tally_read theirs k)))))
        else own_get mine k)"
      using Cons.IH[OF d, of ?mine] unfolding e .
    then show ?thesis
      unfolding step using False by simp
  qed
qed

lemma max_loop_all_keys:
  "(k \<in> set (obj_keys theirs) \<and> (k \<in> set (obj_keys mine) \<or> k \<notin> set inherited_names) \<longrightarrow>
      own_get (max_loop theirs (obj_keys theirs) mine) k
        = Some (Number (math_max (or0 (tally_read mine k)) (or0 (tally_read theirs k)))))
 \<and> (k \<notin> set (obj_keys theirs) \<longrightarrow>
      own_get (max_loop theirs (obj_keys theirs) mine) k = own_get mine k)"
proof -
  have p: "''__proto__'' \<in> set inherited_names" by (simp add: inherited_names_def)
  show ?thesis
    using p own_get_None_iff[of mine k]
    by (auto simp: max_loop_own[OF obj_keys_distinct])
qed

section \<open>PNCounter: merge and convergence\<close>

text \<open>
  Claim C4, amended. For every key that \<open>other.increments\<close> holds and that the receiver
  holds too or that is not a name inherited from \<open>Object.prototype\<close>, \<open>merge\<close> leaves
  \<open>Math.max(self.increments[key] || 0, other.increments[key] || 0)\<close> in the receiver.
  Every key that \<open>other.increments\<close> does not hold is left as it was: a tally that only
  the receiver holds keeps its value, and a key absent from both sides stays absent.
  Likewise for \<open>decrements\<close>.
\<close>

theorem pn_merge_elementwise_max:
  "(k \<in> set (obj_keys (increments other))
      \<and> (k \<in> set (obj_keys (increments c)) \<or> k \<notin> set inherited_names) \<longrightarrow>
      own_get (increments (pn_merge c other)) k
        = Some (Number (math_max (or0 (tally_read (increments c) k))
                                 (or0 (tally_read (increments other) k)))))
 \<and> (k \<notin> set (obj_keys (increments other)) \<longrightarrow>
      own_get (increments (pn_merge c other)) k = own_get (increments c) k)
 \<and> (k \<in> set (obj_keys (decrements other))
      \<and> (k \<in> set (obj_keys (decrements c)) \<or> k \<notin> set inherited_names) \<longrightarrow>
      own_get (decrements (pn_merge c other)) k
        = Some (Number (math_max (or0 (tally_read (decrements c) k))
                                 (or0 (tally_read (decrements other) k)))))
 \<and> (k \<notin> set (obj_keys (decrements other)) \<longrightarrow>
      own_get (decrements (pn_merge c other)) k = own_get (decrements c) k)"
  using max_loop_all_keys[of k "increments other" "increments c"]
        max_loop_all_keys[of k "decrements other" "decrements c"]
  by (simp add: pn_merge_def)

theorem pn_merge_elementwise_max_witness:
  "own_get (increments (pn_merge
        \<lparr>pn_localNodeId = ''a'', increments = [(''a'', Number (Finite 2))],
          decrements = [(''a'', Number (Finite 1))]\<rparr>
        \<lparr>pn_localNodeId = ''b'',
          increments = [(''b'', Number (Finite 1)), (''a'', Number (Finite 3))],
          decrements = []\<rparr>)) ''a''
     = Some (Number (Finite 3))
 \<and> own_get (decrements (pn_merge
        \<lparr>pn_localNodeId = ''a'', increments = [(''a'', Number (Finite 2))],
          decrements = [(''a'', Number (Finite 1))]\<rparr>
        \<lparr>pn_localNodeId = ''b'',
          increments = [(''b'', Number (Finite 1)), (''a'', Number (Finite 3))],
          decrements = []\<rparr>)) ''a''
     = Some (Number (Finite 1))"
proof -
  have m: "math_max (or0 (tally_read [(''a'', Number (Finite 2))] ''a''))
                    (or0 (tally_read [(''b'', Number (Finite 1)), (''a'', Number (Finite 3))] ''a''))
           = Finite 3"
    by code_simp
  show ?thesis
    using m
      pn_merge_elementwise_max [where k = "''a''"
        and other = "\<lparr>pn_localNodeId = ''b'',
          increments = [(''b'', Number (Finite 1)), (''a'', Number (Finite 3))],
          decrements = []\<rparr>"
        and c = "\<lparr>pn_localNodeId = ''a'', increments = [(''a'', Number (Finite 2))],
          decrements = [(''a'', Number (Finite 1))]\<rparr>"]
    by (simp add: own_get_def)
qed

text \<open>
  The claim as stated fails on \<open>counter_negative\<close>: the tally \<open>-1\<close> that only the
  receiver holds stays \<open>-1\<close>, where the maximum with 0 is 0. It also fails for a peer
  that holds tallies under inherited names: nothing is stored under \<open>__proto__\<close>, and
  \<open>NaN\<close> is stored under \<open>constructor\<close>.
\<close>

theorem pn_merge_receiver_only_counterexample:
  "own_get (increments (pn_merge counter_negative (pn_new ''b''))) ''a''
     = Some (Number (Finite (- 1)))
 \<and> math_max (or0 (tally_read (increments counter_negative) ''a''))
            (or0 (tally_read (increments (pn_new ''b'')) ''a'')) = Finite 0
 \<and> own_get (increments peer_proto) ''__proto__'' = Some (Number (Finite 3))
 \<and> own_get (increments (pn_merge (pn_new ''a'') peer_proto)) ''__proto__'' = None
 \<and> own_get (increments peer_proto) ''constructor'' = Some (Number (Finite 2))
 \<and> own_get (increments (pn_merge (pn_new ''a'') peer_proto)) ''constructor'' = Some (Number NaN)"
  by code_simp


section \<open>Facts about the loops of TextRGA\<close>

lemma insert_loop_past:
  "clampedIndex < visiblePos \<or> int (length (filter (visible es) xs)) \<le> clampedIndex - visiblePos \<Longrightarrow>
   insert_loop es newId clampedIndex xs newOrder visiblePos = newOrder @ xs"
  by (induction xs arbitrary: newOrder visiblePos) auto

lemma insert_loop_slot:
  "visiblePos \<le> clampedIndex \<Longrightarrow>
   clampedIndex - visiblePos < int (length (filter (visible es) xs)) \<Longrightarrow>
   \<exists>pre post.
      xs = pre @ (filter (visible es) xs ! nat (clampedIndex - visiblePos)) # post
    \<and> length (filter (visible es) pre) = nat (clampedIndex - visiblePos)
    \<and> insert_loop es newId clampedIndex xs newOrder visiblePos =
        newOrder @ pre @ newId # (filter (visible es) xs ! nat (clampedIndex - visiblePos)) # post"
proof (induction xs arbitrary: newOrder visiblePos)
  case Nil
  then show ?case by simp
next
  case (Cons x xs)
  let ?V = "visible es"
  show ?case
  proof (cases "?V x")
    case False
    from Cons.prems False
    have "clampedIndex - visiblePos < int (length (filter ?V xs))" by simp
    from Cons.IH[OF Cons.prems(1) this, of "newOrder @ [x]"]
    obtain pre post where
      p: "xs = pre @ (filter ?V xs ! nat (clampedIndex - visiblePos)) # post"
         "length (filter ?V pre) = nat (clampedIndex - visiblePos)"
         "insert_loop es newId clampedIndex xs (newOrder @ [x]) visiblePos =
            (newOrder @ [x]) @ pre @ newId # (filter ?V xs ! nat (clampedIndex - visiblePos)) # post"
      by blast
    have "x # xs = (x # pre) @ (filter ?V (x # xs) ! nat (clampedIndex - visiblePos)) # post"
      using p(1) False by simp
    moreover have "length (filter ?V (x # pre)) = nat (clampedIndex - visiblePos)"
      using p(2) False by simp
    moreover have "insert_loop es newId clampedIndex (x # xs) newOrder visiblePos =
        newOrder @ (x # pre) @ newId # (filter ?V (x # xs) ! nat (clampedIndex - visiblePos)) # post"
      using p(3) False by simp
    ultimately show ?thesis by blast
  next
    case True
    show ?thesis
    proof (cases "visiblePos = clampedIndex")
      case eq: True
      have "insert_loop es newId clampedIndex xs ((newOrder @ [newId]) @ [x]) (visiblePos + 1)
            = ((newOrder @ [newId]) @ [x]) @ xs"
        by (rule insert_loop_past) (simp add: eq)
      then have "insert_loop es newId clampedIndex (x # xs) newOrder visiblePos =
        newOrder @ [] @ newId # (filter ?V (x # xs) ! nat (clampedIndex - visiblePos)) # xs"
        using True eq by simp
      moreover have "x # xs = [] @ (filter ?V (x # xs) ! nat (clampedIndex - visiblePos)) # xs"
        using True eq by simp
      moreover have "length (filter ?V []) = nat (clampedIndex - visiblePos)"
        using eq by simp
      ultimately show ?thesis by blast
    next
      case ne: False
      with Cons.prems have lt: "visiblePos + 1 \<le> clampedIndex" by simp
      from Cons.prems True
      have "clampedIndex - (visiblePos + 1) < int (length (filter ?V xs))" by simp
      from Cons.IH[OF lt this, of "newOrder @ [x]"]
      obtain pre post where
        p: "xs = pre @ (filter ?V xs ! nat (clampedIndex - (visiblePos + 1))) # post"
           "length (filter ?V pre) = nat (clampedIndex - (visiblePos + 1))"
           "insert_loop es newId clampedIndex xs (newOrder @ [x]) (visiblePos + 1) =
              (newOrder @ [x]) @ pre @ newId # (filter ?V xs ! nat (clampedIndex - (visiblePos + 1))) # post"
        by blast
      have nth: "filter ?V (x # xs) ! nat (clampedIndex - visiblePos)
               = filter ?V xs ! nat (clampedIndex - (visiblePos + 1))"
      proof -
        have "nat (clampedIndex - visiblePos) = Suc (nat (clampedIndex - (visiblePos + 1)))"
          using lt by simp
        then show ?thesis using True by simp
      qed
      have "x # xs = (x # pre) @ (filter ?V (x # xs) ! nat (clampedIndex - visiblePos)) # post"
        using p(1) nth by simp
      moreover have "length (filter ?V (x # pre)) = nat (clampedIndex - visiblePos)"
        using p(2) True lt by simp
      moreover have "insert_loop es newId clampedIndex (x # xs) newOrder visiblePos =
          newOrder @ (x # pre) @ newId # (filter ?V (x # xs) ! nat (clampedIndex - visiblePos)) # post"
        using p(3) True ne nth by simp
      ultimately show ?thesis by blast
    qed
  qed
qed

lemma nextId_fields:
  "entries (snd (nextId s)) = entries s" "order (snd (nextId s)) = order s"
  "onInsert (snd (nextId s)) = onInsert s"
  by (simp_all add: nextId_def Let_def)

lemma insertAt_order:
  assumes "length ch = 1"
  shows "order (state_after (insertAt index (JSString ch) s)) =
     (let newId = fst (nextId s);
          n = length (filter (visible (entries s)) (order s));
          clampedIndex = clampIndex index n;
          newOrder = insert_loop (entries s) newId clampedIndex (order s) [] 0
      in if clampedIndex = int n \<and> newId \<notin> set newOrder then newOrder @ [newId] else newOrder)"
  using assms nextId_fields[of s]
  by (cases "nextId s") (auto simp: insertAt_def state_after_def Let_def)

section \<open>Facts about merge\<close>

lemma set_add_all_set: "set (set_add_all xs members) = set xs \<union> set members"
  by (induction xs arbitrary: members) auto

lemma set_add_all_distinct: "distinct members \<Longrightarrow> distinct (set_add_all xs members)"
  by (induction xs arbitrary: members) auto

lemma sort_new_Set: "sort (new_Set xs) = sorted_list_of_set (set xs)"
proof (rule sorted_distinct_set_unique)
  show "sorted (sort (new_Set xs))" by simp
  show "distinct (sort (new_Set xs))" by (simp add: new_Set_def set_add_all_distinct)
  show "sorted (sorted_list_of_set (set xs))" by simp
  show "distinct (sorted_list_of_set (set xs))" by simp
  show "set (sort (new_Set xs)) = set (sorted_list_of_set (set xs))"
    by (simp add: new_Set_def set_add_all_set)
qed

lemma join_entry_again: "join_entry (join_entry m t) t = join_entry m t"
  by (cases m; cases t) (simp_all add: join_entry_def)

lemma join_entry_assoc:
  "join_entry (join_entry a b) c = join_entry a (join_entry b c)"
  by (auto simp: join_entry_def split: option.splits)

lemma join_entry_commute:
  assumes "\<And>p q. a = Some p \<Longrightarrow> b = Some q \<Longrightarrow> char p = char q"
  shows "join_entry a b = join_entry b a"
proof (cases a)
  case None
  then show ?thesis by (cases b) (simp_all add: join_entry_def)
next
  case p: (Some p)
  show ?thesis
  proof (cases b)
    case None
    with p show ?thesis by (simp add: join_entry_def)
  next
    case (Some q)
    have "char p = char q" using assms p Some by blast
    then have "p\<lparr>deleted := deleted p \<or> deleted q\<rparr> = q\<lparr>deleted := deleted q \<or> deleted p\<rparr>"
      by (cases p, cases q) auto
    with p Some show ?thesis by (simp add: join_entry_def)
  qed
qed

lemma join3:
  assumes ab: "\<And>p q. a = Some p \<Longrightarrow> b = Some q \<Longrightarrow> char p = char q"
      and bc: "\<And>p q. b = Some p \<Longrightarrow> c = Some q \<Longrightarrow> char p = char q"
      and ac: "\<And>p q. a = Some p \<Longrightarrow> c = Some q \<Longrightarrow> char p = char q"
  shows "join_entry (join_entry a c) b = join_entry (join_entry a b) c"
    and "join_entry (join_entry b a) c = join_entry (join_entry a b) c"
    and "join_entry (join_entry b c) a = join_entry (join_entry a b) c"
    and "join_entry (join_entry c a) b = join_entry (join_entry a b) c"
    and "join_entry (join_entry c b) a = join_entry (join_entry a b) c"
proof -
  have ba: "join_entry b a = join_entry a b"
    by (rule join_entry_commute[symmetric]) (rule ab; assumption)
  have cb: "join_entry c b = join_entry b c"
    by (rule join_entry_commute[symmetric]) (rule bc; assumption)
  have ca: "join_entry c a = join_entry a c"
    by (rule join_entry_commute[symmetric]) (rule ac; assumption)
  show 1: "join_entry (join_entry a c) b = join_entry (join_entry a b) c"
    by (simp only: join_entry_assoc cb)
  show "join_entry (join_entry b a) c = join_entry (join_entry a b) c"
    by (simp only: ba)
  have "join_entry (join_entry b c) a = join_entry b (join_entry a c)"
    by (simp only: join_entry_assoc ca)
  also have "\<dots> = join_entry (join_entry a b) c"
    by (simp only: join_entry_assoc[symmetric] ba)
  finally show 3: "join_entry (join_entry b c) a = join_entry (join_entry a b) c" .
  show "join_entry (join_entry c a) b = join_entry (join_entry a b) c"
    by (simp only: ca 1)
  show "join_entry (join_entry c b) a = join_entry (join_entry a b) c"
    by (simp only: cb 3)
qed

lemma join_flag_of_join_entry:
  "map_option deleted (join_entry a b) = join_flag (map_option deleted a) (map_option deleted b)"
  by (cases a; cases b) (simp_all add: join_entry_def join_flag_def)

lemma join_flag_assoc: "join_flag (join_flag a b) c = join_flag a (join_flag b c)"
  by (cases a; cases b; cases c) (simp_all add: join_flag_def)

lemma join_flag_commute: "join_flag a b = join_flag b a"
  by (cases a; cases b) (auto simp: join_flag_def)

lemma join_flag_left_commute: "join_flag a (join_flag b c) = join_flag b (join_flag a c)"
  by (cases a; cases b; cases c) (auto simp: join_flag_def)

lemma merge_entries_covered:
  assumes "\<forall>k\<in>set ks. k \<in> set inherited_names \<longrightarrow> own_get mine k \<noteq> None"
  shows "\<exists>es. merge_entries theirs ks mine [] = (Inr (), es, [])
            \<and> (\<forall>k. own_get es k =
                  (if k \<in> set ks then join_entry (own_get mine k) (own_get theirs k)
                   else own_get mine k))"
  using assms
proof (induction ks arbitrary: mine)
  case Nil
  then show ?case by simp
next
  case (Cons a ks)
  define mine' where
    "mine' = (case own_get theirs a of
                None \<Rightarrow> mine
              | Some remote \<Rightarrow>
                  (case own_get mine a of
                     None \<Rightarrow> own_set a \<lparr>char = char remote, deleted = deleted remote\<rparr> mine
                   | Some local \<Rightarrow>
                       own_set a (local\<lparr>deleted := deleted local \<or> deleted remote\<rparr>) mine))"
  from Cons.prems have a: "a \<in> set inherited_names \<longrightarrow> own_get mine a \<noteq> None"
    and rest: "\<forall>k\<in>set ks. k \<in> set inherited_names \<longrightarrow> own_get mine k \<noteq> None"
    by simp_all
  have step: "merge_entries theirs (a # ks) mine [] = merge_entries theirs ks mine' []"
    using a by (auto simp: mine'_def read_entry_def split: option.splits)
  have here: "own_get mine' a = join_entry (own_get mine a) (own_get theirs a)"
    by (simp add: mine'_def join_entry_def own_get_set split: option.splits)
  have there: "own_get mine' k = own_get mine k" if "k \<noteq> a" for k
    using that by (simp add: mine'_def own_get_set split: option.splits)
  have kept: "own_get mine' k \<noteq> None" if "own_get mine k \<noteq> None" for k
    using that by (cases "k = a") (auto simp: here there join_entry_def split: option.splits)
  from rest kept have rest': "\<forall>k\<in>set ks. k \<in> set inherited_names \<longrightarrow> own_get mine' k \<noteq> None"
    by blast
  from Cons.IH[OF rest'] obtain es where
    es: "merge_entries theirs ks mine' [] = (Inr (), es, [])"
        "\<And>k. own_get es k =
               (if k \<in> set ks then join_entry (own_get mine' k) (own_get theirs k)
                else own_get mine' k)"
    by blast
  have "own_get es k =
          (if k \<in> set (a # ks) then join_entry (own_get mine k) (own_get theirs k)
           else own_get mine k)" for k
  proof (cases "k = a")
    case True
    then show ?thesis by (simp add: es(2) here join_entry_again)
  next
    case False
    then show ?thesis by (simp add: es(2) there)
  qed
  with es(1) step show ?case by simp
qed

lemma merge_call_covered:
  assumes "set (inherited_ids other) \<subseteq> set (inherited_ids s)"
  shows "clean (merge_call s other)"
    and "own_get (entries (merge s other)) k
           = join_entry (own_get (entries s) k) (own_get (entries other) k)"
    and "order (merge s other) =
           sorted_list_of_set
             ((set (order s) \<union> set (obj_keys (entries s)))
              \<union> (set (order other) \<union> set (obj_keys (entries other))))"
proof -
  from assms
  have "\<forall>k\<in>set (obj_keys (entries other)).
          k \<in> set inherited_names \<longrightarrow> own_get (entries s) k \<noteq> None"
    by (auto simp: inherited_ids_def own_get_None_iff)
  from merge_entries_covered[OF this, of "entries other"] obtain es where
    es: "merge_entries (entries other) (obj_keys (entries other)) (entries s) [] = (Inr (), es, [])"
        "\<And>k. own_get es k =
               (if k \<in> set (obj_keys (entries other))
                then join_entry (own_get (entries s) k) (own_get (entries other) k)
                else own_get (entries s) k)"
    by blast
  have get: "own_get es k = join_entry (own_get (entries s) k) (own_get (entries other) k)" for k
  proof (cases "k \<in> set (obj_keys (entries other))")
    case True
    then show ?thesis by (simp add: es(2))
  next
    case False
    then have "own_get (entries other) k = None" by (simp add: own_get_None_iff)
    with False show ?thesis by (simp add: es(2) join_entry_def)
  qed
  have keys: "set (obj_keys es) = set (obj_keys (entries s)) \<union> set (obj_keys (entries other))"
    by (auto simp: obj_keys_dom get join_entry_def split: option.splits)
  show "clean (merge_call s other)"
    by (simp add: clean_def merge_call_def es(1) writes_of_def Let_def)
  show "own_get (entries (merge s other)) k
           = join_entry (own_get (entries s) k) (own_get (entries other) k)"
    by (simp add: merge_def merge_call_def es(1) state_after_def Let_def get)
  have "order (merge s other) = sort (new_Set (order s @ order other @ obj_keys es))"
    by (simp add: merge_def merge_call_def es(1) state_after_def Let_def)
  also have "\<dots> = sorted_list_of_set
             ((set (order s) \<union> set (obj_keys (entries s)))
              \<union> (set (order other) \<union> set (obj_keys (entries other))))"
    by (simp add: sort_new_Set keys Un_ac)
  finally show "order (merge s other) =
           sorted_list_of_set
             ((set (order s) \<union> set (obj_keys (entries s)))
              \<union> (set (order other) \<union> set (obj_keys (entries other))))" .
qed

lemma merge_keys:
  "set (inherited_ids b) \<subseteq> set (inherited_ids a) \<Longrightarrow>
   set (obj_keys (entries (merge a b))) = set (obj_keys (entries a)) \<union> set (obj_keys (entries b))"
  by (auto simp: obj_keys_dom merge_call_covered(2) join_entry_def split: option.splits)

lemma inherited_ids_merge:
  "set (inherited_ids b) \<subseteq> set (inherited_ids a) \<Longrightarrow>
   set (inherited_ids (merge a b)) = set (inherited_ids a)"
  using merge_keys[of b a] by (auto simp: inherited_ids_def)

lemma same_data_trans: "same_data a b \<Longrightarrow> same_data b c \<Longrightarrow> same_data a c"
  by (simp add: same_data_def)

lemma same_data_sym: "same_data a b \<Longrightarrow> same_data b a"
  by (simp add: same_data_def)

lemma same_ids_and_flags_trans:
  "same_ids_and_flags a b \<Longrightarrow> same_ids_and_flags b c \<Longrightarrow> same_ids_and_flags a c"
  by (simp add: same_ids_and_flags_def)

lemma same_ids_and_flags_sym: "same_ids_and_flags a b \<Longrightarrow> same_ids_and_flags b a"
  by (simp add: same_ids_and_flags_def)

section \<open>TextRGA: insertAt\<close>

text \<open>
  Claim C6. \<open>insertAt\<close> throws its \<open>TypeError\<close> exactly when \<open>char\<close> is not a string
  of length one, and then the state is the one before the call and no callback was
  called.
\<close>

theorem insertAt_invalid_argument:
  "(fst (insertAt index c s) = Inl TypeError \<longleftrightarrow> \<not> (\<exists>ch. c = JSString ch \<and> length ch = 1))
 \<and> (fst (insertAt index c s) = Inl TypeError \<longrightarrow>
      state_after (insertAt index c s) = s \<and> calls_of (insertAt index c s) = [])"
  by (cases c) (auto simp: insertAt_def Let_def state_after_def calls_of_def split: prod.splits)


theorem insertAt_invalid_argument_witness:
  "fst (insertAt 0 (JSString ''ab'') replica_stale) = Inl TypeError
 \<and> state_after (insertAt 0 (JSString ''ab'') replica_stale) = replica_stale
 \<and> calls_of (insertAt 0 (JSString ''ab'') replica_stale) = []
 \<and> fst (insertAt 0 (JSString ''c'') replica_stale) \<noteq> Inl TypeError"
  using insertAt_invalid_argument [of 0 "JSString ''ab''" replica_stale]
        insertAt_invalid_argument [of 0 "JSString ''c''" replica_stale]
  by simp

text \<open>
  Claim C7, amended. For a one-character string, \<open>insertAt\<close> clamps \<open>index\<close> into
  \<open>[0, visibleLength]\<close>. When the clamped index is below the visible length, the new id
  goes into \<open>order\<close> immediately before the id that occupies that visible slot, and every
  other id keeps its place relative to the others. When the clamped index equals the
  visible length, the new id is appended at the end of \<open>order\<close>, unless \<open>order\<close>
  already contains that id: then \<open>order\<close> stays as it was.
\<close>

theorem insertAt_splices:
  fixes s :: textrga and index :: int and ch :: string
  defines "newId \<equiv> fst (nextId s)"
      and "visibleIds \<equiv> filter (visible (entries s)) (order s)"
  defines "clampedIndex \<equiv> clampIndex index (length visibleIds)"
      and "s' \<equiv> state_after (insertAt index (JSString ch) s)"
  assumes single: "length ch = 1"
  shows "(0 \<le> clampedIndex \<and> clampedIndex \<le> int (length visibleIds)
          \<and> (0 \<le> index \<and> index \<le> int (length visibleIds) \<longrightarrow> clampedIndex = index)
          \<and> (index < 0 \<longrightarrow> clampedIndex = 0)
          \<and> (int (length visibleIds) < index \<longrightarrow> clampedIndex = int (length visibleIds)))
       \<and> (clampedIndex < int (length visibleIds) \<longrightarrow>
            (\<exists>pre post.
               order s = pre @ (visibleIds ! nat clampedIndex) # post
             \<and> length (filter (visible (entries s)) pre) = nat clampedIndex
             \<and> order s' = pre @ newId # (visibleIds ! nat clampedIndex) # post))
       \<and> (clampedIndex = int (length visibleIds) \<longrightarrow>
            order s' = (if newId \<in> set (order s) then order s else order s @ [newId]))"
proof -
  have clamp: "0 \<le> clampedIndex \<and> clampedIndex \<le> int (length visibleIds)
       \<and> (0 \<le> index \<and> index \<le> int (length visibleIds) \<longrightarrow> clampedIndex = index)
       \<and> (index < 0 \<longrightarrow> clampedIndex = 0)
       \<and> (int (length visibleIds) < index \<longrightarrow> clampedIndex = int (length visibleIds))"
    by (auto simp: clampedIndex_def clampIndex_def)
  have ord: "order s' =
     (let newOrder = insert_loop (entries s) newId clampedIndex (order s) [] 0
      in if clampedIndex = int (length visibleIds) \<and> newId \<notin> set newOrder
         then newOrder @ [newId] else newOrder)"
    unfolding s'_def newId_def clampedIndex_def visibleIds_def Let_def
    by (rule insertAt_order[OF single, of index s, unfolded Let_def])
  have nonneg: "0 \<le> clampedIndex" by (simp add: clampedIndex_def clampIndex_def)
  have middle: "\<exists>pre post.
            order s = pre @ (visibleIds ! nat clampedIndex) # post
          \<and> length (filter (visible (entries s)) pre) = nat clampedIndex
          \<and> order s' = pre @ newId # (visibleIds ! nat clampedIndex) # post"
    if lt: "clampedIndex < int (length visibleIds)"
  proof -
    from lt have "clampedIndex - 0 < int (length (filter (visible (entries s)) (order s)))"
      by (simp add: visibleIds_def)
    from insert_loop_slot[OF _ this, of newId "[]"] nonneg
    obtain pre post where
      "order s = pre @ (visibleIds ! nat clampedIndex) # post"
      "length (filter (visible (entries s)) pre) = nat clampedIndex"
      "insert_loop (entries s) newId clampedIndex (order s) [] 0 =
         pre @ newId # (visibleIds ! nat clampedIndex) # post"
      by (auto simp: visibleIds_def)
    then show ?thesis using ord lt by auto
  qed
  have atend: "order s' = (if newId \<in> set (order s) then order s else order s @ [newId])"
    if eq: "clampedIndex = int (length visibleIds)"
  proof -
    have "insert_loop (entries s) newId clampedIndex (order s) [] 0 = [] @ order s"
      by (rule insert_loop_past) (simp add: eq visibleIds_def)
    then show ?thesis using ord eq by simp
  qed
  from clamp middle atend show ?thesis by blast
qed

theorem insertAt_splices_witness:
  "length ''z'' = 1
 \<and> order (state_after (insertAt 7 (JSString ''z'') replica_x)) = [''a:1'', ''a:2'']"
proof -
  have single: "length ''z'' = 1" by simp
  have c: "clampIndex 7 (length (filter (visible (entries replica_x)) (order replica_x)))
           = int (length (filter (visible (entries replica_x)) (order replica_x)))"
    by code_simp
  have n: "fst (nextId replica_x) = ''a:2''" by code_simp
  have o: "order replica_x = [''a:1'']" by code_simp
  from insertAt_splices [OF single, where s = replica_x and index = 7] c
  have "order (state_after (insertAt 7 (JSString ''z'') replica_x))
        = (if fst (nextId replica_x) \<in> set (order replica_x) then order replica_x
           else order replica_x @ [fst (nextId replica_x)])"
    by blast
  then show ?thesis by (simp add: n o)
qed

text \<open>
  The claim as stated fails on \<open>replica_stale\<close>: the index 2 is the visible length, the
  id that \<open>insertAt\<close> allocates is already in \<open>order\<close>, and \<open>order\<close> is not extended.
\<close>

theorem insertAt_append_counterexample:
  "clampIndex 2 (length (filter (visible (entries replica_stale)) (order replica_stale)))
     = int (length (filter (visible (entries replica_stale)) (order replica_stale)))
 \<and> fst (insertAt 2 (JSString ''x'') replica_stale) = Inr ''a:1''
 \<and> order (state_after (insertAt 2 (JSString ''x'') replica_stale)) = [''a:1'', ''b:1'']
 \<and> order (state_after (insertAt 2 (JSString ''x'') replica_stale))
     \<noteq> order replica_stale @ [''a:1'']"
  by code_simp

section \<open>TextRGA: deleteAt\<close>

text \<open>
  Claim C8, amended. \<open>deleteAt\<close> never throws. With an index outside the visible range
  it changes nothing, calls no callback and writes to no built-in object. With an index
  inside the visible range whose id has an own entry, it sets the \<open>deleted\<close> flag of
  that entry, leaves every other entry, the keys of \<open>entries\<close> and \<open>order\<close> as they
  were, and calls \<open>onDelete\<close> when one is registered. With an index inside the visible
  range whose id has no entry and is not a name inherited from \<open>Object.prototype\<close>, it
  changes nothing and calls no callback.
\<close>

theorem deleteAt_tombstones:
  fixes s :: textrga and index :: int
  defines "visibleIds \<equiv> filter (visible (entries s)) (order s)"
      and "s' \<equiv> state_after (deleteAt index s)"
      and "calls \<equiv> calls_of (deleteAt index s)"
      and "writes \<equiv> writes_of (deleteAt index s)"
  shows "fst (deleteAt index s) = Inr ()
       \<and> (index < 0 \<or> int (length visibleIds) \<le> index \<longrightarrow> s' = s \<and> calls = [] \<and> writes = [])
       \<and> (0 \<le> index \<and> index < int (length visibleIds) \<longrightarrow>
            (case own_get (entries s) (visibleIds ! nat index) of
               None \<Rightarrow>
                 visibleIds ! nat index \<notin> set inherited_names \<longrightarrow>
                   s' = s \<and> calls = [] \<and> writes = []
             | Some e \<Rightarrow>
                 own_get (entries s') (visibleIds ! nat index) = Some (e\<lparr>deleted := True\<rparr>)
               \<and> (\<forall>k. k \<noteq> visibleIds ! nat index \<longrightarrow> own_get (entries s') k = own_get (entries s) k)
               \<and> obj_keys (entries s') = obj_keys (entries s)
               \<and> order s' = order s
               \<and> localCounter s' = localCounter s
               \<and> calls = (if onDelete s then [OnDelete index (visibleIds ! nat index)] else [])
               \<and> writes = []))"
  unfolding visibleIds_def s'_def calls_def writes_def
  by (auto simp: deleteAt_def Let_def state_after_def calls_of_def writes_of_def read_entry_def
                 own_get_set obj_keys_set_same
           split: option.splits)

theorem deleteAt_tombstones_witness:
  "own_get (entries (state_after (deleteAt 0 replica_dangling))) ''a:1''
     = Some \<lparr>char = ''H'', deleted = True\<rparr>
 \<and> order (state_after (deleteAt 0 replica_dangling)) = [''a:1'', ''b:7'']
 \<and> calls_of (deleteAt 0 replica_dangling) = [OnDelete 0 ''a:1'']
 \<and> state_after (deleteAt 2 replica_dangling) = replica_dangling"
proof -
  have v: "filter (visible (entries replica_dangling)) (order replica_dangling) = [''a:1'', ''b:7'']"
    by code_simp
  have g: "own_get (entries replica_dangling) ''a:1'' = Some \<lparr>char = ''H'', deleted = False\<rparr>"
    by code_simp
  have o: "order replica_dangling = [''a:1'', ''b:7'']" by code_simp
  have d: "onDelete replica_dangling" by code_simp
  have inside:
    "own_get (entries (state_after (deleteAt 0 replica_dangling))) ''a:1''
       = Some \<lparr>char = ''H'', deleted = True\<rparr>
   \<and> order (state_after (deleteAt 0 replica_dangling)) = order replica_dangling
   \<and> calls_of (deleteAt 0 replica_dangling) = [OnDelete 0 ''a:1'']"
    using deleteAt_tombstones [where index = 0 and s = replica_dangling]
    by (simp add: v g d)
  have outside: "state_after (deleteAt 2 replica_dangling) = replica_dangling"
    using deleteAt_tombstones [where index = 2 and s = replica_dangling]
    by (simp add: v)
  from inside outside show ?thesis by (simp add: o)
qed

text \<open>
  The claim as stated fails on \<open>replica_dangling\<close>: index 1 is inside the visible range,
  the id in that slot has no entry, and \<open>deleteAt\<close> sets no flag. On
  \<open>replica_inherited\<close> the id in slot 1 has no entry either, but it names an inherited
  member: \<open>deleteAt\<close> sets \<open>deleted\<close> on the built-in object and calls \<open>onDelete\<close>,
  and no entry has its flag set.
\<close>

theorem deleteAt_missing_entry_counterexample:
  "0 \<le> (1::int)
 \<and> (1::int) < int (length (filter (visible (entries replica_dangling)) (order replica_dangling)))
 \<and> filter (visible (entries replica_dangling)) (order replica_dangling) ! 1 = ''b:7''
 \<and> own_get (entries (state_after (deleteAt 1 replica_dangling))) ''b:7'' = None
 \<and> state_after (deleteAt 1 replica_dangling) = replica_dangling
 \<and> calls_of (deleteAt 1 replica_dangling) = []
 \<and> filter (visible (entries replica_inherited)) (order replica_inherited) ! 1 = ''constructor''
 \<and> own_get (entries (state_after (deleteAt 1 replica_inherited))) ''constructor'' = None
 \<and> calls_of (deleteAt 1 replica_inherited) = [OnDelete 1 ''constructor'']
 \<and> writes_of (deleteAt 1 replica_inherited) = [SetDeleted ''constructor'' True]"
  by code_simp

section \<open>TextRGA: getText\<close>

text \<open>
  Claim C10. \<open>getText\<close> should skip an id of \<open>order\<close> that has no entry.
  \<open>replica_inherited\<close> has merged a peer whose \<open>order\<close> lists the id \<open>constructor\<close>
  without an entry on either side. The read \<open>this.entries[id]\<close> finds the inherited
  function, the test \<open>entry && !entry.deleted\<close> passes, and \<open>getText\<close> appends the
  string form of \<open>undefined\<close>.
\<close>

theorem getText_appends_undefined:
  "order replica_inherited = [''a:1'', ''constructor'']
 \<and> obj_keys (entries replica_inherited) = [''a:1'']
 \<and> own_get (entries replica_inherited) ''constructor'' = None
 \<and> getText replica_inherited = ''Hundefined''"
  by code_simp

section \<open>TextRGA: merge\<close>

text \<open>
  Claim C1. Merging a replica with a structural copy of itself should leave it as it
  was. On \<open>replica_iH\<close>, which typed \<open>H\<close> and then \<open>i\<close> in front of it, \<open>merge\<close>
  sorts \<open>order\<close> by id and the text changes from \<open>iH\<close> to \<open>Hi\<close>.
\<close>

theorem merge_with_copy_reorders:
  "order replica_iH = [''A:2'', ''A:1'']
 \<and> getText replica_iH = ''iH''
 \<and> order (merge replica_iH replica_iH) = [''A:1'', ''A:2'']
 \<and> getText (merge replica_iH replica_iH) = ''Hi''
 \<and> merge replica_iH replica_iH \<noteq> replica_iH"
  by code_simp

text \<open>
  Claim C2. The \<open>order\<close> of a reachable state should be the ascending sort of its ids.
  \<open>replica_iH\<close> is reached from an empty replica by two calls of \<open>insertAt\<close>, and its
  \<open>order\<close> is not sorted.
\<close>

theorem insertAt_leaves_order_unsorted:
  "replica_iH =
     state_after (insertAt 0 (JSString ''i'')
       (state_after (insertAt 0 (JSString ''H'') (textrga_new ''A''))))
 \<and> order replica_iH = [''A:2'', ''A:1'']
 \<and> sort (order replica_iH) = [''A:1'', ''A:2'']
 \<and> order replica_iH \<noteq> sort (order replica_iH)"
  by (rule conjI, rule replica_iH_def) code_simp

text \<open>
  Claim C3, amended. For three states that use the same names inherited from
  \<open>Object.prototype\<close> as ids of their entries (in particular, three states that use
  none): merging them in any order and any grouping gives the same \<open>order\<close> array and
  \<open>entries\<close> with the same ids and the same \<open>deleted\<close> flags; regrouping the merges
  of one order gives the same \<open>entries\<close> map; and when the states agree pairwise on the
  character of every id they share, every order and grouping gives the same \<open>entries\<close>
  map. None of these calls throws or writes to a built-in object. Two maps are the same
  when they hold the same entry under every id.
\<close>

theorem merge_any_order_any_grouping:
  assumes hxy: "set (inherited_ids x) = set (inherited_ids y)"
      and hyz: "set (inherited_ids y) = set (inherited_ids z)"
  shows "(\<forall>a\<in>set (arrangements x y z). \<forall>b\<in>set (arrangements x y z). same_ids_and_flags a b)
       \<and> (\<forall>(p, q, r)\<in>set (orderings x y z).
             same_data (merge (merge p q) r) (merge p (merge q r)))
       \<and> (same_chars x y \<and> same_chars y z \<and> same_chars x z \<longrightarrow>
             (\<forall>a\<in>set (arrangements x y z). \<forall>b\<in>set (arrangements x y z). same_data a b))
       \<and> (\<forall>(p, q, r)\<in>set (orderings x y z).
             clean (merge_call p q) \<and> clean (merge_call (merge p q) r)
           \<and> clean (merge_call q r) \<and> clean (merge_call p (merge q r)))
       \<and> same_ids_and_flags (merge x y) (merge y x)
       \<and> (same_chars x y \<longrightarrow> same_data (merge x y) (merge y x))"
proof -
  define ok where "ok s \<longleftrightarrow> set (inherited_ids s) = set (inherited_ids x)" for s
  have px: "ok x" and py: "ok y" and pz: "ok z"
    using hxy hyz by (simp_all add: ok_def)
  have pm: "ok (merge a b)" if "ok a" "ok b" for a b
    using that inherited_ids_merge[of b a] by (simp add: ok_def)
  note ok = px py pz pm
  have E: "own_get (entries (merge s other)) k
             = join_entry (own_get (entries s) k) (own_get (entries other) k)"
    if "ok s" "ok other" for s other k
    using that by (intro merge_call_covered(2)) (simp add: ok_def)
  have O: "order (merge s other) =
             sorted_list_of_set
               ((set (order s) \<union> set (obj_keys (entries s)))
                \<union> (set (order other) \<union> set (obj_keys (entries other))))"
    if "ok s" "ok other" for s other
    using that by (intro merge_call_covered(3)) (simp add: ok_def)
  have K: "set (obj_keys (entries (merge a b)))
             = set (obj_keys (entries a)) \<union> set (obj_keys (entries b))"
    if "ok a" "ok b" for a b
    using that by (intro merge_keys) (simp add: ok_def)
  have C: "clean (merge_call s other)" if "ok s" "ok other" for s other
    using that by (intro merge_call_covered(1)) (simp add: ok_def)
  have ord: "order t = order (merge (merge x y) z)" if "t \<in> set (arrangements x y z)" for t
    using that
    by (auto simp: arrangements_def orderings_def O K ok Un_ac)
  have flags: "map_option deleted (own_get (entries t) k)
                 = map_option deleted (own_get (entries (merge (merge x y) z)) k)"
    if "t \<in> set (arrangements x y z)" for t k
    using that
    by (auto simp: arrangements_def orderings_def E ok join_flag_of_join_entry
                   join_flag_assoc join_flag_commute join_flag_left_commute)
  have shape: "same_ids_and_flags t (merge (merge x y) z)"
    if "t \<in> set (arrangements x y z)" for t
    using ord[OF that] flags[OF that] by (simp add: same_ids_and_flags_def)
  have part1: "\<forall>a\<in>set (arrangements x y z). \<forall>b\<in>set (arrangements x y z). same_ids_and_flags a b"
    using shape by (blast intro: same_ids_and_flags_trans same_ids_and_flags_sym)
  have regroup: "same_data (merge (merge p q) r) (merge p (merge q r))"
    if "ok p" "ok q" "ok r" for p q r
  proof -
    have "own_get (entries (merge (merge p q) r)) k = own_get (entries (merge p (merge q r))) k"
      for k
      using that by (simp add: E pm join_entry_assoc)
    moreover have "order (merge (merge p q) r) = order (merge p (merge q r))"
      using that by (simp add: O K pm Un_ac)
    ultimately show ?thesis by (auto simp: same_data_def)
  qed
  have part2: "\<forall>(p, q, r)\<in>set (orderings x y z).
                 same_data (merge (merge p q) r) (merge p (merge q r))"
    by (simp add: orderings_def regroup px py pz)
  have part3: "\<forall>a\<in>set (arrangements x y z). \<forall>b\<in>set (arrangements x y z). same_data a b"
    if xy: "same_chars x y" and yz: "same_chars y z" and xz: "same_chars x z"
  proof -
    have j: "join_entry (join_entry (own_get (entries x) k) (own_get (entries z) k)) (own_get (entries y) k)
               = join_entry (join_entry (own_get (entries x) k) (own_get (entries y) k)) (own_get (entries z) k)"
            "join_entry (join_entry (own_get (entries y) k) (own_get (entries x) k)) (own_get (entries z) k)
               = join_entry (join_entry (own_get (entries x) k) (own_get (entries y) k)) (own_get (entries z) k)"
            "join_entry (join_entry (own_get (entries y) k) (own_get (entries z) k)) (own_get (entries x) k)
               = join_entry (join_entry (own_get (entries x) k) (own_get (entries y) k)) (own_get (entries z) k)"
            "join_entry (join_entry (own_get (entries z) k) (own_get (entries x) k)) (own_get (entries y) k)
               = join_entry (join_entry (own_get (entries x) k) (own_get (entries y) k)) (own_get (entries z) k)"
            "join_entry (join_entry (own_get (entries z) k) (own_get (entries y) k)) (own_get (entries x) k)
               = join_entry (join_entry (own_get (entries x) k) (own_get (entries y) k)) (own_get (entries z) k)"
      for k
      using xy yz xz
      by (intro join3; simp add: same_chars_def; blast)+
    have left: "same_data (merge (merge x z) y) (merge (merge x y) z)"
               "same_data (merge (merge y x) z) (merge (merge x y) z)"
               "same_data (merge (merge y z) x) (merge (merge x y) z)"
               "same_data (merge (merge z x) y) (merge (merge x y) z)"
               "same_data (merge (merge z y) x) (merge (merge x y) z)"
      unfolding same_data_def
      by (simp_all add: E O K ok j Un_ac fun_eq_iff)
    have right: "same_data (merge p (merge q r)) (merge (merge p q) r)"
      if "ok p" "ok q" "ok r" for p q r
      by (rule same_data_sym[OF regroup[OF that]])
    have refl: "same_data (merge (merge x y) z) (merge (merge x y) z)"
      by (simp add: same_data_def)
    have canon: "same_data t (merge (merge x y) z)" if "t \<in> set (arrangements x y z)" for t
      using that refl left right[OF px py pz]
        same_data_trans[OF right[OF px pz py] left(1)]
        same_data_trans[OF right[OF py px pz] left(2)]
        same_data_trans[OF right[OF py pz px] left(3)]
        same_data_trans[OF right[OF pz px py] left(4)]
        same_data_trans[OF right[OF pz py px] left(5)]
      by (auto simp: arrangements_def orderings_def)
    show ?thesis
      using canon by (blast intro: same_data_trans same_data_sym)
  qed
  have part4: "\<forall>(p, q, r)\<in>set (orderings x y z).
                 clean (merge_call p q) \<and> clean (merge_call (merge p q) r)
               \<and> clean (merge_call q r) \<and> clean (merge_call p (merge q r))"
    by (simp add: orderings_def C ok)
  have part5: "same_ids_and_flags (merge x y) (merge y x)"
    unfolding same_ids_and_flags_def
    by (simp add: E O ok join_flag_of_join_entry join_flag_commute Un_ac)
  have part6: "same_data (merge x y) (merge y x)" if xy: "same_chars x y"
  proof -
    have "own_get (entries (merge x y)) k = own_get (entries (merge y x)) k" for k
    proof -
      have "char p = char q"
        if "own_get (entries x) k = Some p" "own_get (entries y) k = Some q" for p q
        using xy that unfolding same_chars_def by blast
      then show ?thesis
        unfolding E[OF px py] E[OF py px] by (rule join_entry_commute)
    qed
    moreover have "order (merge x y) = order (merge y x)"
      by (simp add: O ok Un_ac)
    ultimately show ?thesis by (auto simp: same_data_def)
  qed
  from part1 part2 part3 part4 part5 part6 show ?thesis by blast
qed

theorem merge_any_order_any_grouping_witness:
  "set (inherited_ids peer_constructor) = set (inherited_ids peer_constructor_deleted)
 \<and> set (inherited_ids peer_constructor_deleted) = set (inherited_ids peer_constructor_i)
 \<and> same_chars peer_constructor peer_constructor_deleted
 \<and> same_chars peer_constructor_deleted peer_constructor_i
 \<and> same_chars peer_constructor peer_constructor_i
 \<and> same_data (merge peer_constructor_i (merge peer_constructor_deleted peer_constructor))
              (merge (merge peer_constructor peer_constructor_deleted) peer_constructor_i)
 \<and> same_ids_and_flags (merge peer_constructor_deleted peer_constructor)
                       (merge peer_constructor peer_constructor_deleted)
 \<and> order (merge peer_constructor_i (merge peer_constructor_deleted peer_constructor))
     = [''b:1'', ''constructor'']
 \<and> own_get (entries (merge peer_constructor_i (merge peer_constructor_deleted peer_constructor)))
       ''constructor'' = Some \<lparr>char = ''c'', deleted = True\<rparr>"
proof -
  have x: "entries peer_constructor = [(''constructor'', \<lparr>char = ''c'', deleted = False\<rparr>)]"
    by code_simp
  have d: "entries peer_constructor_deleted = [(''constructor'', \<lparr>char = ''c'', deleted = True\<rparr>)]"
    by code_simp
  have h: "entries peer_constructor_i = [(''constructor'', \<lparr>char = ''c'', deleted = False\<rparr>),
                                         (''b:1'', \<lparr>char = ''i'', deleted = False\<rparr>)]"
    by code_simp
  have hxy: "set (inherited_ids peer_constructor) = set (inherited_ids peer_constructor_deleted)"
    by code_simp
  have hyz: "set (inherited_ids peer_constructor_deleted) = set (inherited_ids peer_constructor_i)"
    by code_simp
  have xy: "same_chars peer_constructor peer_constructor_deleted"
    by (auto simp: same_chars_def x d own_get_def split: if_splits)
  have yz: "same_chars peer_constructor_deleted peer_constructor_i"
    by (auto simp: same_chars_def d h own_get_def split: if_splits)
  have xz: "same_chars peer_constructor peer_constructor_i"
    by (auto simp: same_chars_def x h own_get_def split: if_splits)
  have o: "order (merge peer_constructor_i (merge peer_constructor_deleted peer_constructor))
             = [''b:1'', ''constructor'']"
    by code_simp
  have e: "own_get (entries (merge peer_constructor_i (merge peer_constructor_deleted peer_constructor)))
             ''constructor'' = Some \<lparr>char = ''c'', deleted = True\<rparr>"
    by code_simp
  have m1: "merge peer_constructor_i (merge peer_constructor_deleted peer_constructor)
              \<in> set (arrangements peer_constructor peer_constructor_deleted peer_constructor_i)"
    by (simp add: arrangements_def orderings_def)
  have m2: "merge (merge peer_constructor peer_constructor_deleted) peer_constructor_i
              \<in> set (arrangements peer_constructor peer_constructor_deleted peer_constructor_i)"
    by (simp add: arrangements_def orderings_def)
  note all = merge_any_order_any_grouping [OF hxy hyz]
  from all xy yz xz m1 m2
  have "same_data (merge peer_constructor_i (merge peer_constructor_deleted peer_constructor))
                  (merge (merge peer_constructor peer_constructor_deleted) peer_constructor_i)"
    by blast
  moreover from all
  have "same_ids_and_flags (merge peer_constructor_deleted peer_constructor)
                           (merge peer_constructor peer_constructor_deleted)"
    by (blast intro: same_ids_and_flags_sym)
  ultimately show ?thesis
    using hxy hyz xy yz xz o e by simp
qed

text \<open>
  The claim as stated fails for \<open>replica_x\<close> and \<open>replica_y\<close>, two replicas that ran
  under the same node id and each typed a different character: both hold the id
  \<open>a:1\<close>, and each keeps its own character when it merges the other. It also fails for
  \<open>peer_constructor\<close>, which holds an entry under the id \<open>constructor\<close>: an empty
  replica that merges it reads the inherited function as its own entry, writes the flag
  to that function and copies nothing, while the peer keeps the entry when it merges the
  empty replica.
\<close>

theorem merge_commute_counterexample:
  "own_get (entries (merge replica_x replica_y)) ''a:1'' = Some \<lparr>char = ''x'', deleted = False\<rparr>
 \<and> own_get (entries (merge replica_y replica_x)) ''a:1'' = Some \<lparr>char = ''y'', deleted = False\<rparr>
 \<and> getText (merge replica_x replica_y) = ''x''
 \<and> getText (merge replica_y replica_x) = ''y''
 \<and> own_get (entries (merge (textrga_new ''a'') peer_constructor)) ''constructor'' = None
 \<and> own_get (entries (merge peer_constructor (textrga_new ''a''))) ''constructor''
     = Some \<lparr>char = ''c'', deleted = False\<rparr>
 \<and> writes_of (merge_call (textrga_new ''a'') peer_constructor) = [SetDeleted ''constructor'' False]"
  by code_simp

section \<open>LWW register: competition\<close>

text \<open>
  Claim C9. With thresholds that are not negative: of two registers with the same
  timestamp and the counters 1 and 2, the value of the one with counter 2 is left in the
  receiver, whichever of the two is the receiver. Of two registers whose timestamps are
  further apart than the staleness threshold, the value of the later one is left in the
  receiver, whatever the counters.
\<close>

theorem competition_tie_break:
  assumes "0 \<le> STALE_THRESHOLD_MS cfg" and "0 \<le> COUNTER_WINDOW_MS cfg"
  shows "(timestamp a = timestamp b \<and> counter a = 1 \<and> counter b = 2 \<longrightarrow>
            lww_value (competition cfg a b) = lww_value b
          \<and> lww_value (competition cfg b a) = lww_value b)
       \<and> (STALE_THRESHOLD_MS cfg < \<bar>timestamp b - timestamp a\<bar> \<and> timestamp a < timestamp b \<longrightarrow>
            lww_value (competition cfg a b) = lww_value b
          \<and> lww_value (competition cfg b a) = lww_value b)"
  using assms by (auto simp: competition_def contender_wins_def Let_def)

theorem competition_tie_break_witness:
  "0 \<le> STALE_THRESHOLD_MS default_config \<and> 0 \<le> COUNTER_WINDOW_MS default_config
 \<and> lww_value (competition default_config
       \<lparr>lww_value = ''draft'', timestamp = 1000, counter = 1, nodeId = ''node-a''\<rparr>
       \<lparr>lww_value = ''published'', timestamp = 1000, counter = 2, nodeId = ''node-b''\<rparr>)
     = ''published''
 \<and> lww_value (competition default_config
       \<lparr>lww_value = ''published'', timestamp = 1000, counter = 2, nodeId = ''node-b''\<rparr>
       \<lparr>lww_value = ''draft'', timestamp = 1000, counter = 1, nodeId = ''node-a''\<rparr>)
     = ''published''
 \<and> lww_value (competition default_config
       \<lparr>lww_value = ''old'', timestamp = 0, counter = 9, nodeId = ''node-z''\<rparr>
       \<lparr>lww_value = ''new'', timestamp = 1800001, counter = 1, nodeId = ''node-a''\<rparr>)
     = ''new''"
proof -
  have s: "0 \<le> STALE_THRESHOLD_MS default_config" by (simp add: default_config_def)
  have w: "0 \<le> COUNTER_WINDOW_MS default_config" by (simp add: default_config_def)
  show ?thesis
    using s w
      competition_tie_break [OF s w,
        of "\<lparr>lww_value = ''draft'', timestamp = 1000, counter = 1, nodeId = ''node-a''\<rparr>"
           "\<lparr>lww_value = ''published'', timestamp = 1000, counter = 2, nodeId = ''node-b''\<rparr>"]
      competition_tie_break [OF s w,
        of "\<lparr>lww_value = ''old'', timestamp = 0, counter = 9, nodeId = ''node-z''\<rparr>"
           "\<lparr>lww_value = ''new'', timestamp = 1800001, counter = 1, nodeId = ''node-a''\<rparr>"]
    by (simp add: default_config_def)
qed

end
